theory Spec2Isabelle
  imports Main "HOL-Library.Sublist"
begin

section \<open>The Markdown serializer of \<open>convertToMarkdown.js\<close>\<close>

text \<open>
  The source function \<open>$convertToMarkdownString\<close> walks the sequence of
  \<open>{depth, node}\<close> entries returned by \<open>$dfs()\<close> once, appends to one output string
  and keeps four stacks of open scopes. The sequence is a parameter of the model; the
  classification predicates (\<open>$isHeadingNode\<close>, ...) and the accessors of a node
  (\<open>getTag\<close>, \<open>getTextContent\<close>, \<open>hasFormat\<close>, \<open>getURL\<close>, \<open>$hasSingleListChild\<close>)
  are the constructors and arguments of the datatype \<open>node\<close>.

  Strings are lists of characters. Depths are JavaScript numbers that \<open>$dfs\<close> fills with
  integers; they are modelled as \<open>int\<close>. The counter of a list frame is a natural number,
  printed in decimal as the template literal does for every count below \<open>10^21\<close>.
\<close>

subsection \<open>Data model\<close>

datatype node =
    HeadingNode string
  | ListNode string
  | ListItemNode bool
  | TextNode string bool bool bool bool
  | ParagraphNode
  | QuoteNode
  | LineBreakNode
  | CodeNode
  | LinkNode string
  | OtherNode

text \<open>
  The constructor of a node is the first predicate of the dispatch chain that holds for it.
  \<open>HeadingNode tag\<close> and \<open>ListNode tag\<close> carry the result of \<open>getTag()\<close>;
  \<open>ListItemNode b\<close> carries the value of \<open>$hasSingleListChild(node)\<close>;
  \<open>TextNode content code bold italic strikethrough\<close> carries \<open>getTextContent()\<close> and the
  four \<open>hasFormat\<close> answers; \<open>LinkNode url\<close> carries \<open>getURL()\<close>. \<open>OtherNode\<close> is a node
  for which none of the nine predicates of the dispatch chain holds.
\<close>

text \<open>Quote and code frames are \<open>{depth}\<close>; the other records extend them.\<close>

record frame =
  depth :: int

record link_frame = frame +
  endText :: string

record list_frame = frame +
  count :: nat
  tag :: string

record entry = frame +
  node :: node

text \<open>The stacks are lists whose head is the top of the stack (the last array element).\<close>

record state =
  "text" :: string
  shouldAppendFirstLineBreak :: bool
  closingBracketStack :: "link_frame list"
  listStack :: "list_frame list"
  quoteStack :: "frame list"
  codeStack :: "frame list"

datatype error = RangeError

subsection \<open>Characters and helpers\<close>

definition newline :: char where
  "newline = CHR 0x0A"

definition backslash :: char where
  "backslash = CHR 0x5C"

definition backtick :: char where
  "backtick = CHR 0x60"

definition appendLineBreak :: "string \<Rightarrow> bool \<Rightarrow> string" where
  "appendLineBreak t isFirstLineBreak =
     (if length t > 0 \<or> isFirstLineBreak then t @ [newline] else t)"

text \<open>
  \<open>s.replace(/c/g, r)\<close> for a pattern that is one literal character: every occurrence
  of \<open>c\<close>, from left to right, is replaced by \<open>r\<close>.
\<close>

fun replaceAll :: "char \<Rightarrow> string \<Rightarrow> string \<Rightarrow> string" where
  "replaceAll c r [] = []"
| "replaceAll c r (x # xs) =
     (if x = c then r @ replaceAll c r xs else x # replaceAll c r xs)"

definition encodeURL :: "string \<Rightarrow> string" where
  "encodeURL url = replaceAll (CHR '')'') ''%29'' url"

definition encodeURLTitle :: "string \<Rightarrow> string" where
  "encodeURLTitle url =
     replaceAll (CHR '']'') [backslash, CHR '']'']
       (replaceAll (CHR ''['') [backslash, CHR ''['']
         (replaceAll backslash [backslash, backslash] url))"

text \<open>The decimal numeral of a count, as \<open>`${n}`\<close> prints it.\<close>

definition digit :: "nat \<Rightarrow> char" where
  "digit d = char_of (48 + d)"

function decimal :: "nat \<Rightarrow> string" where
  "decimal n = (if n < 10 then [digit n] else decimal (n div 10) @ [digit (n mod 10)])"
  by pat_completeness auto
termination
  by (relation "measure id") auto

declare decimal.simps [simp del]

subsection \<open>The dispatch on the kind of the node (lines 53 to 116)\<close>

text \<open>
  The only operation of the loop body that can throw is \<open>' '.repeat(n)\<close> with a negative
  \<open>n\<close>, reached when a list item that needs a marker is visited with an empty list stack
  (the read of \<open>list.tag\<close> on the next line would throw as well).
\<close>

definition formatText :: "bool \<Rightarrow> string \<Rightarrow> bool \<Rightarrow> bool \<Rightarrow> bool \<Rightarrow> bool \<Rightarrow> string" where
  "formatText inLink currentText code bold italic strikethrough =
     (let formattedText = currentText;
          formattedText = (if inLink then encodeURLTitle formattedText else formattedText);
          formattedText = (if code then [backtick] @ formattedText @ [backtick] else formattedText);
          formattedText = (if bold then ''**'' @ formattedText @ ''**'' else formattedText);
          formattedText = (if italic then ''*'' @ formattedText @ ''*'' else formattedText);
          formattedText = (if strikethrough then ''~~'' @ formattedText @ ''~~'' else formattedText)
      in formattedText)"

fun dispatch :: "int \<Rightarrow> node \<Rightarrow> state \<Rightarrow> error + state" where
  "dispatch d (HeadingNode t) st =
     (if t = ''h1'' then
        Inr (st\<lparr>text := appendLineBreak (text st) (shouldAppendFirstLineBreak st) @ ''# ''\<rparr>)
      else if t = ''h2'' then
        Inr (st\<lparr>text := appendLineBreak (text st) (shouldAppendFirstLineBreak st) @ ''## ''\<rparr>)
      else Inr st)"
| "dispatch d (ListNode t) st =
     Inr (st\<lparr>listStack := \<lparr>depth = d, count = 0, tag = t\<rparr> # listStack st\<rparr>)"
| "dispatch d (ListItemNode hasSingleListChild) st =
     (if \<not> hasSingleListChild then
        (let t = appendLineBreak (text st) (shouldAppendFirstLineBreak st) in
         case listStack st of
           [] \<Rightarrow> Inl RangeError
         | list # below \<Rightarrow>
             (let indent = replicate ((length (listStack st) - 1) * 4) (CHR '' '') in
              if tag list = ''ol'' then
                Inr (st\<lparr>text := t @ indent @ decimal (count list + 1) @ ''. '',
                        listStack := list\<lparr>count := count list + 1\<rparr> # below\<rparr>)
              else if tag list = ''ul'' then
                Inr (st\<lparr>text := t @ indent @ ''- ''\<rparr>)
              else Inr (st\<lparr>text := t\<rparr>)))
      else Inr st)"
| "dispatch d (TextNode currentText code bold italic strikethrough) st =
     Inr (st\<lparr>text := text st @
            formatText (length (closingBracketStack st) > 0)
              currentText code bold italic strikethrough\<rparr>)"
| "dispatch d ParagraphNode st =
     Inr (st\<lparr>text := appendLineBreak (text st) (shouldAppendFirstLineBreak st),
             shouldAppendFirstLineBreak := True\<rparr>)"
| "dispatch d QuoteNode st =
     Inr (st\<lparr>text := appendLineBreak (text st) (shouldAppendFirstLineBreak st) @ ''> '',
             quoteStack := \<lparr>depth = d\<rparr> # quoteStack st\<rparr>)"
| "dispatch d LineBreakNode st =
     Inr (st\<lparr>text := appendLineBreak (text st) (shouldAppendFirstLineBreak st)\<rparr>)"
| "dispatch d CodeNode st =
     Inr (st\<lparr>text := appendLineBreak (text st) (shouldAppendFirstLineBreak st)
                      @ [backtick, backtick, backtick, newline],
             codeStack := \<lparr>depth = d\<rparr> # codeStack st\<rparr>)"
| "dispatch d (LinkNode url) st =
     Inr (st\<lparr>text := text st @ ''['',
             closingBracketStack :=
               \<lparr>depth = d, endText = '']('' @ encodeURL url @ '')''\<rparr> # closingBracketStack st\<rparr>)"
| "dispatch d OtherNode st = Inr st"

subsection \<open>The close-out pass (lines 118 to 156)\<close>

text \<open>
  \<open>nextDepth\<close> is \<open>None\<close> where \<open>nodes[i + 1]\<close> is \<open>undefined\<close>. The test
  \<open>nextNode == null || nextNode.depth <= f.depth\<close> is \<open>closable\<close>.
\<close>

definition closable :: "int option \<Rightarrow> int \<Rightarrow> bool" where
  "closable nextDepth d = (case nextDepth of None \<Rightarrow> True | Some n \<Rightarrow> n \<le> d)"

definition closeLink :: "int option \<Rightarrow> state \<Rightarrow> state" where
  "closeLink nextDepth st =
     (case closingBracketStack st of
        [] \<Rightarrow> st
      | topOfBracketStack # below \<Rightarrow>
          if closable nextDepth (depth topOfBracketStack)
          then st\<lparr>closingBracketStack := below, text := text st @ endText topOfBracketStack\<rparr>
          else st)"

fun popCode :: "int option \<Rightarrow> string \<Rightarrow> frame list \<Rightarrow> string \<times> frame list" where
  "popCode nextDepth t [] = (t, [])"
| "popCode nextDepth t (f # fs) =
     (if closable nextDepth (depth f)
      then popCode nextDepth (t @ [newline, backtick, backtick, backtick]) fs
      else (t, f # fs))"

fun popList :: "int option \<Rightarrow> list_frame list \<Rightarrow> list_frame list" where
  "popList nextDepth [] = []"
| "popList nextDepth (f # fs) =
     (if closable nextDepth (depth f) then popList nextDepth fs else f # fs)"

fun popQuote :: "int option \<Rightarrow> string \<Rightarrow> frame list \<Rightarrow> string \<times> frame list" where
  "popQuote nextDepth t [] = (t, [])"
| "popQuote nextDepth t (f # fs) =
     (if closable nextDepth (depth f)
      then popQuote nextDepth (t @ [newline]) fs
      else (t, f # fs))"

definition closeCode :: "int option \<Rightarrow> state \<Rightarrow> state" where
  "closeCode nextDepth st =
     (case popCode nextDepth (text st) (codeStack st) of
        (t, stack) \<Rightarrow> st\<lparr>text := t, codeStack := stack\<rparr>)"

definition closeList :: "int option \<Rightarrow> state \<Rightarrow> state" where
  "closeList nextDepth st = st\<lparr>listStack := popList nextDepth (listStack st)\<rparr>"

definition closeQuote :: "int option \<Rightarrow> state \<Rightarrow> state" where
  "closeQuote nextDepth st =
     (case popQuote nextDepth (text st) (quoteStack st) of
        (t, stack) \<Rightarrow> st\<lparr>text := t, quoteStack := stack\<rparr>)"

definition closeOut :: "int option \<Rightarrow> state \<Rightarrow> state" where
  "closeOut nextDepth st =
     closeQuote nextDepth (closeList nextDepth (closeCode nextDepth (closeLink nextDepth st)))"

subsection \<open>The loop and the exported function\<close>

definition nextDepth :: "entry list \<Rightarrow> nat \<Rightarrow> int option" where
  "nextDepth nodes i = (if i + 1 < length nodes then Some (depth (nodes ! (i + 1))) else None)"

definition body :: "entry list \<Rightarrow> nat \<Rightarrow> state \<Rightarrow> error + state" where
  "body nodes i st =
     (case dispatch (depth (nodes ! i)) (node (nodes ! i)) st of
        Inl e \<Rightarrow> Inl e
      | Inr st' \<Rightarrow> Inr (closeOut (nextDepth nodes i) st'))"

definition initial :: state where
  "initial = \<lparr>text = [], shouldAppendFirstLineBreak = False, closingBracketStack = [],
              listStack = [], quoteStack = [], codeStack = []\<rparr>"

text \<open>
  \<open>loop nodes k\<close> is the state after the first \<open>k\<close> iterations of the \<open>for\<close> loop, or
  the error that ended it. The loop runs \<open>nodes.length\<close> iterations.
\<close>

primrec loop :: "entry list \<Rightarrow> nat \<Rightarrow> error + state" where
  "loop nodes 0 = Inr initial"
| "loop nodes (Suc k) =
     (case loop nodes k of Inl e \<Rightarrow> Inl e | Inr st \<Rightarrow> body nodes k st)"

definition convertToMarkdownString :: "entry list \<Rightarrow> error + string" where
  "convertToMarkdownString nodes =
     (case loop nodes (length nodes) of Inl e \<Rightarrow> Inl e | Inr st \<Rightarrow> Inr (text st))"

subsection \<open>Notions used to state the properties\<close>

text \<open>
  The definitions of this subsection are not part of the program. They say, in the words of
  the specification, what the theorems below compare the program with.
\<close>

text \<open>Wrapping a string in an inline marker when a format flag is active.\<close>

definition wrapIf :: "bool \<Rightarrow> string \<Rightarrow> string \<Rightarrow> string" where
  "wrapIf active marker s = (if active then marker @ s @ marker else s)"

text \<open>Backslash-prefixing each occurrence of a backslash or a square bracket.\<close>

definition escapeForLink :: "string \<Rightarrow> string" where
  "escapeForLink s =
     concat (map (\<lambda>x. if x = backslash \<or> x = CHR ''['' \<or> x = CHR '']''
                          then [backslash, x] else [x]) s)"

text \<open>The number of positions of \<open>s\<close> at which the string \<open>p\<close> occurs.\<close>

fun occurrences :: "string \<Rightarrow> string \<Rightarrow> nat" where
  "occurrences p [] = 0"
| "occurrences p (x # xs) = (if prefix p (x # xs) then 1 else 0) + occurrences p xs"

text \<open>The closing fence of a code block, a line break followed by three backticks.\<close>

definition fence :: string where
  "fence = [newline, backtick, backtick, backtick]"

text \<open>
  Scopes, read off the sequence alone. The scope opened by the entry at position \<open>i\<close>
  ends at the first position \<open>j \<ge> i\<close> whose next entry is not deeper than entry \<open>i\<close>,
  the end of the sequence counting as such a next entry. \<open>stillOpen nodes i k\<close> says that
  this has not happened at any of the positions \<open>i, ..., k - 1\<close>.
\<close>

definition stillOpen :: "entry list \<Rightarrow> nat \<Rightarrow> nat \<Rightarrow> bool" where
  "stillOpen nodes i k =
     (\<forall>j\<in>{i..<k}. \<not> closable (nextDepth nodes j) (depth (nodes ! i)))"

text \<open>
  The positions before \<open>k\<close>, latest first, of the entries of kind \<open>P\<close> whose scope is
  still open after the iterations \<open>0, ..., k - 1\<close>.
\<close>

definition openAt :: "(node \<Rightarrow> bool) \<Rightarrow> entry list \<Rightarrow> nat \<Rightarrow> nat list" where
  "openAt P nodes k =
     filter (\<lambda>i. P (node (nodes ! i)) \<and> stillOpen nodes i k) (rev [0..<k])"

text \<open>The positions, latest first, of the entries of kind \<open>P\<close> whose scope ends at \<open>k\<close>.\<close>

definition closedAt :: "(node \<Rightarrow> bool) \<Rightarrow> entry list \<Rightarrow> nat \<Rightarrow> nat list" where
  "closedAt P nodes k =
     filter (\<lambda>i. P (node (nodes ! i)) \<and> stillOpen nodes i k
                  \<and> closable (nextDepth nodes k) (depth (nodes ! i))) (rev [0..<Suc k])"

definition isCodeNode :: "node \<Rightarrow> bool" where
  "isCodeNode n = (n = CodeNode)"

definition isQuoteNode :: "node \<Rightarrow> bool" where
  "isQuoteNode n = (n = QuoteNode)"

definition isListNode :: "node \<Rightarrow> bool" where
  "isListNode n = (case n of ListNode t \<Rightarrow> True | _ \<Rightarrow> False)"

definition isListItemNode :: "node \<Rightarrow> bool" where
  "isListItemNode n = (case n of ListItemNode b \<Rightarrow> True | _ \<Rightarrow> False)"

definition listTagOf :: "node \<Rightarrow> string" where
  "listTagOf n = (case n of ListNode t \<Rightarrow> t | _ \<Rightarrow> [])"

definition isLinkNode :: "node \<Rightarrow> bool" where
  "isLinkNode n = (case n of LinkNode url \<Rightarrow> True | _ \<Rightarrow> False)"

definition linkUrlOf :: "node \<Rightarrow> string" where
  "linkUrlOf n = (case n of LinkNode url \<Rightarrow> url | _ \<Rightarrow> [])"

definition linkFrameAt :: "entry list \<Rightarrow> nat \<Rightarrow> link_frame" where
  "linkFrameAt nodes i =
     \<lparr>depth = depth (nodes ! i),
      endText = '']('' @ encodeURL (linkUrlOf (node (nodes ! i))) @ '')''\<rparr>"

text \<open>No link node is visited while the scope of another link node is open.\<close>

definition linksNotNested :: "entry list \<Rightarrow> bool" where
  "linksNotNested nodes =
     (\<forall>k\<in>{..<length nodes}. isLinkNode (node (nodes ! k)) \<longrightarrow>
        openAt isLinkNode nodes k = [])"

text \<open>
  Numbering of ordered lists, read off the sequence alone. \<open>markerUnder nodes i j\<close>: the
  entry at \<open>j\<close> is a list item that needs a marker, the innermost list scope open at \<open>j\<close>
  is the one of position \<open>i\<close>, and that list is ordered. \<open>markersBefore nodes i k\<close>
  counts such items among the positions before \<open>k\<close>.
\<close>

definition markerUnder :: "entry list \<Rightarrow> nat \<Rightarrow> nat \<Rightarrow> bool" where
  "markerUnder nodes i j =
     (node (nodes ! j) = ListItemNode False \<and> listTagOf (node (nodes ! i)) = ''ol'' \<and>
      (case openAt isListNode nodes j of [] \<Rightarrow> False | innermost # below \<Rightarrow> innermost = i))"

definition markersBefore :: "entry list \<Rightarrow> nat \<Rightarrow> nat \<Rightarrow> nat" where
  "markersBefore nodes i k = length (filter (markerUnder nodes i) [0..<k])"

definition listFrameAt :: "entry list \<Rightarrow> nat \<Rightarrow> nat \<Rightarrow> list_frame" where
  "listFrameAt nodes k i =
     \<lparr>depth = depth (nodes ! i), count = markersBefore nodes i k,
      tag = listTagOf (node (nodes ! i))\<rparr>"

text \<open>
  The precondition on the input: the depths are those of a pre-order walk from a root at
  depth 0 (each entry is at most one level deeper than the entry before it), and every
  list item lies in the subtree of a list node.
\<close>

definition preorderDepths :: "entry list \<Rightarrow> bool" where
  "preorderDepths nodes =
     ((nodes \<noteq> [] \<longrightarrow> depth (nodes ! 0) = 0) \<and>
      (\<forall>i\<in>{..<length nodes - 1}.
         0 < depth (nodes ! Suc i) \<and> depth (nodes ! Suc i) \<le> depth (nodes ! i) + 1))"

definition enclosedByList :: "entry list \<Rightarrow> nat \<Rightarrow> bool" where
  "enclosedByList nodes k =
     (\<exists>i\<in>{..<k}. isListNode (node (nodes ! i)) \<and>
        (\<forall>j\<in>{i<..k}. depth (nodes ! i) < depth (nodes ! j)))"

definition wellFormed :: "entry list \<Rightarrow> bool" where
  "wellFormed nodes =
     (preorderDepths nodes \<and>
      (\<forall>k\<in>{..<length nodes}. isListItemNode (node (nodes ! k)) \<longrightarrow> enclosedByList nodes k))"

subsection \<open>Example sequences\<close>

text \<open>Each example is the pre-order walk of a small document under a root at depth 0.\<close>

definition plain :: "string \<Rightarrow> node" where
  "plain s = TextNode s False False False False"

text \<open>Two ordered lists, one after the other, with two items and one item.\<close>

definition siblingLists :: "entry list" where
  "siblingLists =
     [\<lparr>depth = 0, node = OtherNode\<rparr>,
      \<lparr>depth = 1, node = ListNode ''ol''\<rparr>,
      \<lparr>depth = 2, node = ListItemNode False\<rparr>, \<lparr>depth = 3, node = plain ''a''\<rparr>,
      \<lparr>depth = 2, node = ListItemNode False\<rparr>, \<lparr>depth = 3, node = plain ''b''\<rparr>,
      \<lparr>depth = 1, node = ListNode ''ol''\<rparr>,
      \<lparr>depth = 2, node = ListItemNode False\<rparr>, \<lparr>depth = 3, node = plain ''c''\<rparr>]"

text \<open>A paragraph holding a link whose only child is a link, then a text.\<close>

definition nestedLinks :: "entry list" where
  "nestedLinks =
     [\<lparr>depth = 0, node = OtherNode\<rparr>,
      \<lparr>depth = 1, node = ParagraphNode\<rparr>,
      \<lparr>depth = 2, node = LinkNode ''a''\<rparr>,
      \<lparr>depth = 3, node = LinkNode ''b''\<rparr>, \<lparr>depth = 4, node = plain ''x''\<rparr>,
      \<lparr>depth = 2, node = plain ''y''\<rparr>]"

text \<open>The same two links inside a quote, and inside a code block, before a paragraph.\<close>

definition quotedNestedLinks :: "entry list" where
  "quotedNestedLinks =
     [\<lparr>depth = 0, node = OtherNode\<rparr>,
      \<lparr>depth = 1, node = QuoteNode\<rparr>,
      \<lparr>depth = 2, node = LinkNode ''a''\<rparr>,
      \<lparr>depth = 3, node = LinkNode ''b''\<rparr>, \<lparr>depth = 4, node = plain ''x''\<rparr>,
      \<lparr>depth = 1, node = ParagraphNode\<rparr>, \<lparr>depth = 2, node = plain ''y''\<rparr>]"

definition fencedNestedLinks :: "entry list" where
  "fencedNestedLinks =
     [\<lparr>depth = 0, node = OtherNode\<rparr>,
      \<lparr>depth = 1, node = CodeNode\<rparr>,
      \<lparr>depth = 2, node = LinkNode ''a''\<rparr>,
      \<lparr>depth = 3, node = LinkNode ''b''\<rparr>, \<lparr>depth = 4, node = plain ''x''\<rparr>,
      \<lparr>depth = 1, node = ParagraphNode\<rparr>, \<lparr>depth = 2, node = plain ''y''\<rparr>]"

text \<open>A quote followed by a paragraph, and a quote followed by a third-level heading.\<close>

definition quoteThenParagraph :: "entry list" where
  "quoteThenParagraph =
     [\<lparr>depth = 0, node = OtherNode\<rparr>,
      \<lparr>depth = 1, node = QuoteNode\<rparr>, \<lparr>depth = 2, node = plain ''q''\<rparr>,
      \<lparr>depth = 1, node = ParagraphNode\<rparr>, \<lparr>depth = 2, node = plain ''t''\<rparr>]"

definition quoteThenHeading3 :: "entry list" where
  "quoteThenHeading3 =
     [\<lparr>depth = 0, node = OtherNode\<rparr>,
      \<lparr>depth = 1, node = QuoteNode\<rparr>, \<lparr>depth = 2, node = plain ''q''\<rparr>,
      \<lparr>depth = 1, node = HeadingNode ''h3''\<rparr>, \<lparr>depth = 2, node = plain ''t''\<rparr>]"

section \<open>Properties\<close>

subsection \<open>Inline text and links\<close>

lemma replaceAll_concat_map:
  "replaceAll c r xs = concat (map (\<lambda>x. if x = c then r else [x]) xs)"
  by (induction xs) simp_all

lemma encodeURLTitle_Cons:
  "encodeURLTitle (x # xs) =
     (if x = backslash \<or> x = CHR ''['' \<or> x = CHR '']'' then [backslash, x] else [x])
       @ encodeURLTitle xs"
  by (simp add: encodeURLTitle_def backslash_def)

lemma encodeURLTitle_escapeForLink: "encodeURLTitle s = escapeForLink s"
proof (induction s)
  case Nil
  show ?case by (simp add: encodeURLTitle_def escapeForLink_def)
next
  case (Cons x xs)
  have "escapeForLink (x # xs) =
      (if x = backslash \<or> x = CHR ''['' \<or> x = CHR '']'' then [backslash, x] else [x])
        @ escapeForLink xs"
    by (simp add: escapeForLink_def)
  with Cons show ?case by (simp only: encodeURLTitle_Cons)
qed

text \<open>
  C4. A text node appends its content, backslash-escaped on backslashes and square
  brackets exactly when the link stack is not empty, then wrapped from the inside out in
  a backtick for the code flag, \<open>**\<close> for bold, \<open>*\<close> for italic and \<open>~~\<close> for
  strikethrough, whatever the combination of flags.
\<close>

theorem C4_text_emission:
  "dispatch d (TextNode s code bold italic strikethrough) st =
     Inr (st\<lparr>text := text st @
       wrapIf strikethrough ''~~'' (wrapIf italic ''*'' (wrapIf bold ''**''
         (wrapIf code [backtick]
           (if closingBracketStack st \<noteq> [] then escapeForLink s else s))))\<rparr>)"
  by (simp add: formatText_def wrapIf_def encodeURLTitle_escapeForLink)

theorem C4_text_emission_witness:
  "dispatch 2 (TextNode ''a[b]'' True True True True)
      (initial\<lparr>closingBracketStack := [\<lparr>depth = 1, endText = '']()''\<rparr>]\<rparr>) =
     Inr (initial\<lparr>closingBracketStack := [\<lparr>depth = 1, endText = '']()''\<rparr>],
            text := ''~~***'' @ [backtick] @ ''a'' @ [backslash] @ ''[b'' @ [backslash] @ '']''
                     @ [backtick] @ ''***~~''\<rparr>)"
  using C4_text_emission [of 2 "''a[b]''" True True True True
      "initial\<lparr>closingBracketStack := [\<lparr>depth = 1, endText = '']()''\<rparr>]\<rparr>"]
  by (simp add: wrapIf_def escapeForLink_def initial_def backslash_def)

lemma encodeURL_Cons:
  "encodeURL (x # xs) = (if x = CHR '')'' then ''%29'' else [x]) @ encodeURL xs"
  by (simp add: encodeURL_def)

lemma encodeURL_Nil: "encodeURL [] = []"
  by (simp add: encodeURL_def)

lemma encodeURL_no_paren: "CHR '')'' \<notin> set (encodeURL u)"
  by (induction u) (simp_all add: encodeURL_Cons encodeURL_Nil)

lemma encodeURL_length: "length (encodeURL u) = length u + 2 * count_list u (CHR '')'')"
  by (induction u) (simp_all add: encodeURL_Cons encodeURL_Nil)

lemma prefix29: "prefix ''29'' (encodeURL xs) \<longleftrightarrow> prefix ''29'' xs"
proof (cases xs)
  case Nil
  then show ?thesis by (simp add: encodeURL_Nil)
next
  case (Cons a as)
  show ?thesis
  proof (cases as)
    case Nil
    with Cons show ?thesis by (simp add: encodeURL_Cons encodeURL_Nil)
  next
    case (Cons b bs)
    with \<open>xs = a # as\<close> show ?thesis by (simp add: encodeURL_Cons)
  qed
qed

lemma occurrences_encodeURL:
  "occurrences ''%29'' (encodeURL u) = occurrences ''%29'' u + count_list u (CHR '')'')"
proof (induction u)
  case Nil
  show ?case by (simp add: encodeURL_Nil)
next
  case (Cons x xs)
  show ?case
  proof (cases "x = CHR '')''")
    case True
    then show ?thesis using Cons by (simp add: encodeURL_Cons)
  next
    case False
    have "prefix ''%29'' (x # encodeURL xs) \<longleftrightarrow> prefix ''%29'' (x # xs)"
      using prefix29 [of xs] by simp
    then show ?thesis using Cons False by (simp add: encodeURL_Cons)
  qed
qed

text \<open>
  C5. A link node with URL \<open>u\<close> pushes a frame whose closing text is \<open>](\<close>, then \<open>u\<close>
  with each closing parenthesis replaced by \<open>%29\<close> and every other character kept, then
  \<open>)\<close>. The encoded URL has one more occurrence of \<open>%29\<close> than \<open>u\<close> for each closing
  parenthesis of \<open>u\<close>, it is two characters longer for each of them, and it has no closing
  parenthesis left.
\<close>

theorem C5_link_closing_text:
  "dispatch d (LinkNode u) st =
     Inr (st\<lparr>text := text st @ ''['',
             closingBracketStack :=
               \<lparr>depth = d,
                endText = '']('' @ concat (map (\<lambda>c. if c = CHR '')'' then ''%29'' else [c]) u) @ '')''\<rparr>
               # closingBracketStack st\<rparr>)
   \<and> occurrences ''%29'' (encodeURL u) = occurrences ''%29'' u + count_list u (CHR '')'')
   \<and> length (encodeURL u) = length u + 2 * count_list u (CHR '')'')
   \<and> CHR '')'' \<notin> set (encodeURL u)"
  using occurrences_encodeURL [of u] encodeURL_length [of u] encodeURL_no_paren [of u]
  by (simp add: encodeURL_def replaceAll_concat_map)

theorem C5_link_closing_text_witness:
  "dispatch 3 (LinkNode ''f(x)y)'') initial =
     Inr (initial\<lparr>text := ''['',
             closingBracketStack := [\<lparr>depth = 3, endText = ''](f(x%29y%29)''\<rparr>]\<rparr>)
   \<and> occurrences ''%29'' (encodeURL ''f(x)y)'') = 2"
  using C5_link_closing_text [of 3 "''f(x)y)''" initial]
  by (simp add: initial_def)

subsection \<open>The output only grows\<close>

lemma appendLineBreak_prefix: "prefix t (appendLineBreak t b)"
  by (simp add: appendLineBreak_def)

lemma dispatch_prefix:
  "dispatch d n st = Inr st' \<Longrightarrow> prefix (text st) (text st')"
proof (cases n)
  case (ListItemNode single)
  assume "dispatch d n st = Inr st'"
  with ListItemNode show ?thesis
    using appendLineBreak_prefix [of "text st" "shouldAppendFirstLineBreak st"]
    by (auto simp: Let_def prefix_def split: if_splits list.splits)
qed (use appendLineBreak_prefix [of "text st" "shouldAppendFirstLineBreak st"]
      in \<open>auto simp: prefix_def split: if_splits\<close>)

lemma popCode_eq:
  "popCode nd t fs =
     (t @ concat (replicate (length (takeWhile (\<lambda>f. closable nd (depth f)) fs)) fence),
      dropWhile (\<lambda>f. closable nd (depth f)) fs)"
  by (induction fs arbitrary: t) (simp_all add: fence_def)

lemma popQuote_eq:
  "popQuote nd t fs =
     (t @ replicate (length (takeWhile (\<lambda>f. closable nd (depth f)) fs)) newline,
      dropWhile (\<lambda>f. closable nd (depth f)) fs)"
  by (induction fs arbitrary: t) (simp_all add: replicate_app_Cons_same)

lemma popList_eq: "popList nd fs = dropWhile (\<lambda>f. closable nd (depth f)) fs"
  by (induction fs) simp_all

lemma closeLink_prefix: "prefix (text st) (text (closeLink nd st))"
  by (simp add: closeLink_def split: list.splits)

lemma closeCode_prefix: "prefix (text st) (text (closeCode nd st))"
  by (simp add: closeCode_def popCode_eq)

lemma closeList_text: "text (closeList nd st) = text st"
  by (simp add: closeList_def)

lemma closeQuote_prefix: "prefix (text st) (text (closeQuote nd st))"
  by (simp add: closeQuote_def popQuote_eq)

lemma closeOut_prefix: "prefix (text st) (text (closeOut nd st))"
proof -
  have "prefix (text st) (text (closeLink nd st))" by (rule closeLink_prefix)
  also have "prefix \<dots> (text (closeCode nd (closeLink nd st)))" by (rule closeCode_prefix)
  also have "\<dots> = text (closeList nd (closeCode nd (closeLink nd st)))"
    by (simp add: closeList_text)
  also have "prefix \<dots> (text (closeOut nd st))"
    unfolding closeOut_def by (rule closeQuote_prefix)
  finally show ?thesis .
qed

lemma body_prefix:
  assumes "body nodes i st = Inr st'"
  shows "prefix (text st) (text st')"
proof -
  from assms obtain st1 where d: "dispatch (depth (nodes ! i)) (node (nodes ! i)) st = Inr st1"
    and c: "st' = closeOut (nextDepth nodes i) st1"
    by (auto simp: body_def split: sum.splits)
  from dispatch_prefix [OF d] closeOut_prefix [of st1 "nextDepth nodes i"] c
  show ?thesis by (auto intro: prefix_order.trans)
qed

lemma loop_Suc_Inr:
  "loop nodes (Suc k) = Inr st' \<Longrightarrow> \<exists>st. loop nodes k = Inr st \<and> body nodes k st = Inr st'"
  by (auto split: sum.splits)

lemma loop_prefix:
  "k \<le> n \<Longrightarrow> loop nodes k = Inr st \<Longrightarrow> loop nodes n = Inr st' \<Longrightarrow> prefix (text st) (text st')"
proof (induction n arbitrary: st')
  case 0
  then show ?case by simp
next
  case (Suc n)
  show ?case
  proof (cases "k = Suc n")
    case True
    with Suc.prems show ?thesis by simp
  next
    case False
    with Suc.prems have le: "k \<le> n" by simp
    from loop_Suc_Inr [OF Suc.prems(3)] obtain s where
      s: "loop nodes n = Inr s" and b: "body nodes n s = Inr st'" by blast
    from Suc.IH [OF le Suc.prems(2) s] body_prefix [OF b]
    show ?thesis by (rule prefix_order.trans)
  qed
qed

text \<open>
  C10. On the empty sequence the serializer returns the empty string. Each iteration only
  appends to the output: the output after any number of iterations is a prefix of the
  string that is returned.
\<close>

theorem C10_empty_and_append_only:
  "convertToMarkdownString [] = Inr []
   \<and> (k \<le> length nodes \<and> loop nodes k = Inr st \<and> convertToMarkdownString nodes = Inr out
        \<longrightarrow> prefix (text st) out)"
proof
  show "convertToMarkdownString [] = Inr []"
    by (simp add: convertToMarkdownString_def initial_def)
  show "k \<le> length nodes \<and> loop nodes k = Inr st \<and> convertToMarkdownString nodes = Inr out
        \<longrightarrow> prefix (text st) out"
  proof
    assume a: "k \<le> length nodes \<and> loop nodes k = Inr st \<and> convertToMarkdownString nodes = Inr out"
    then obtain st' where f: "loop nodes (length nodes) = Inr st'" and o: "out = text st'"
      by (auto simp: convertToMarkdownString_def split: sum.splits)
    from a f loop_prefix [of k "length nodes" nodes st st'] o show "prefix (text st) out"
      by simp
  qed
qed

theorem C10_empty_and_append_only_witness:
  "(1::nat) \<le> length [\<lparr>depth = 0, node = HeadingNode ''h1''\<rparr>,
                      \<lparr>depth = 1, node = TextNode ''a'' False False False False\<rparr>]
   \<and> loop [\<lparr>depth = 0, node = HeadingNode ''h1''\<rparr>,
            \<lparr>depth = 1, node = TextNode ''a'' False False False False\<rparr>] 1 =
       Inr (initial\<lparr>text := ''# ''\<rparr>)
   \<and> convertToMarkdownString [\<lparr>depth = 0, node = HeadingNode ''h1''\<rparr>,
            \<lparr>depth = 1, node = TextNode ''a'' False False False False\<rparr>] = Inr ''# a''
   \<and> prefix (text (initial\<lparr>text := ''# ''\<rparr>)) ''# a''"
  using C10_empty_and_append_only [of 1
      "[\<lparr>depth = 0, node = HeadingNode ''h1''\<rparr>,
        \<lparr>depth = 1, node = TextNode ''a'' False False False False\<rparr>]"
      "initial\<lparr>text := ''# ''\<rparr>" "''# a''"]
  by (simp add: convertToMarkdownString_def body_def nextDepth_def initial_def closeOut_def
      closeLink_def closeCode_def closeList_def closeQuote_def closable_def
      appendLineBreak_def formatText_def)

subsection \<open>Scopes of a sequence\<close>

lemma closable_mono: "closable nd d \<Longrightarrow> d \<le> d' \<Longrightarrow> closable nd d'"
  by (auto simp: closable_def split: option.splits)

lemma stillOpen_Suc:
  "i \<le> k \<Longrightarrow> stillOpen nodes i (Suc k) \<longleftrightarrow>
     stillOpen nodes i k \<and> \<not> closable (nextDepth nodes k) (depth (nodes ! i))"
  by (auto simp: stillOpen_def atLeastLessThanSuc)

lemma stillOpen_self: "stillOpen nodes k k"
  by (simp add: stillOpen_def)

lemma openAt_Suc:
  "openAt P nodes (Suc k) =
     filter (\<lambda>i. \<not> closable (nextDepth nodes k) (depth (nodes ! i)))
       ((if P (node (nodes ! k)) then [k] else []) @ openAt P nodes k)"
proof -
  have "filter (\<lambda>i. P (node (nodes ! i)) \<and> stillOpen nodes i (Suc k)) (rev [0..<k]) =
        filter (\<lambda>i. \<not> closable (nextDepth nodes k) (depth (nodes ! i)))
          (filter (\<lambda>i. P (node (nodes ! i)) \<and> stillOpen nodes i k) (rev [0..<k]))"
    unfolding filter_filter
    by (rule filter_cong) (auto simp: stillOpen_Suc)
  then show ?thesis
    by (simp add: openAt_def stillOpen_Suc stillOpen_self)
qed

lemma closedAt_eq:
  "closedAt P nodes k =
     filter (\<lambda>i. closable (nextDepth nodes k) (depth (nodes ! i)))
       ((if P (node (nodes ! k)) then [k] else []) @ openAt P nodes k)"
proof -
  have "filter (\<lambda>i. P (node (nodes ! i)) \<and> stillOpen nodes i k
                  \<and> closable (nextDepth nodes k) (depth (nodes ! i))) (rev [0..<k]) =
        filter (\<lambda>i. closable (nextDepth nodes k) (depth (nodes ! i)))
          (filter (\<lambda>i. P (node (nodes ! i)) \<and> stillOpen nodes i k) (rev [0..<k]))"
    unfolding filter_filter
    by (rule filter_cong) auto
  then show ?thesis
    by (simp add: openAt_def closedAt_def stillOpen_self)
qed

lemma openAt_0: "openAt P nodes 0 = []"
  by (simp add: openAt_def)

lemma openAt_less: "i \<in> set (openAt P nodes k) \<Longrightarrow> i < k"
  by (simp add: openAt_def)

lemma openAt_deeper_next:
  assumes "i \<in> set (openAt P nodes k)"
  shows "depth (nodes ! i) < depth (nodes ! k)"
    and "k < length nodes"
proof -
  from assms have "i < k" and "stillOpen nodes i k" by (simp_all add: openAt_def)
  then have "\<not> closable (nextDepth nodes (k - 1)) (depth (nodes ! i))"
    by (simp add: stillOpen_def)
  with \<open>i < k\<close> show "depth (nodes ! i) < depth (nodes ! k)" and "k < length nodes"
    by (auto simp: closable_def nextDepth_def split: if_splits)
qed

lemma openAt_distinct: "distinct (openAt P nodes k)"
  by (simp add: openAt_def)

lemma openAt_sorted:
  "sorted_wrt (>) (map (\<lambda>i. depth (nodes ! i)) (openAt P nodes k))"
proof (induction k)
  case 0
  show ?case by (simp add: openAt_0)
next
  case (Suc k)
  have "sorted_wrt (>) (map (\<lambda>i. depth (nodes ! i))
          ((if P (node (nodes ! k)) then [k] else []) @ openAt P nodes k))"
    using Suc openAt_deeper_next(1) [of _ P nodes k] by auto
  then show ?case
    unfolding openAt_Suc sorted_wrt_map by (rule sorted_wrt_filter)
qed

lemma pushed_sorted:
  "sorted_wrt (>) (map (\<lambda>i. depth (nodes ! i))
          ((if P (node (nodes ! k)) then [k] else []) @ openAt P nodes k))"
  using openAt_sorted [of nodes P k] openAt_deeper_next(1) [of _ P nodes k] by auto

lemma not_closable_below:
  assumes "sorted_wrt (\<lambda>a b. key a > key b) (x # xs)" and "\<not> closable nd (key x)"
  shows "\<forall>y\<in>set xs. \<not> closable nd (key y)"
proof
  fix y assume "y \<in> set xs"
  with assms(1) have "key y \<le> key x" by auto
  with assms(2) show "\<not> closable nd (key y)" using closable_mono by blast
qed

lemma dropWhile_closable_sorted:
  "sorted_wrt (\<lambda>a b. key a > key b) xs \<Longrightarrow>
     dropWhile (\<lambda>x. closable nd (key x)) xs = filter (\<lambda>x. \<not> closable nd (key x)) xs"
proof (induction xs)
  case Nil
  show ?case by simp
next
  case (Cons x xs)
  show ?case
  proof (cases "closable nd (key x)")
    case True
    with Cons show ?thesis by simp
  next
    case False
    from not_closable_below [OF Cons.prems False]
    have "filter (\<lambda>x. \<not> closable nd (key x)) xs = xs" by simp
    with False show ?thesis by simp
  qed
qed

lemma takeWhile_closable_sorted:
  "sorted_wrt (\<lambda>a b. key a > key b) xs \<Longrightarrow>
     takeWhile (\<lambda>x. closable nd (key x)) xs = filter (\<lambda>x. closable nd (key x)) xs"
proof (induction xs)
  case Nil
  show ?case by simp
next
  case (Cons x xs)
  show ?case
  proof (cases "closable nd (key x)")
    case True
    with Cons show ?thesis by simp
  next
    case False
    from not_closable_below [OF Cons.prems False]
    have "filter (\<lambda>x. closable nd (key x)) xs = []" by simp
    with False show ?thesis by simp
  qed
qed

lemma pushed_sorted_key:
  "sorted_wrt (\<lambda>a b. depth (nodes ! a) > depth (nodes ! b))
     ((if P (node (nodes ! k)) then [k] else []) @ openAt P nodes k)"
  using pushed_sorted [of nodes P k] by (simp only: sorted_wrt_map)

lemma open_after_pop:
  "dropWhile (\<lambda>i. closable (nextDepth nodes k) (depth (nodes ! i)))
     ((if P (node (nodes ! k)) then [k] else []) @ openAt P nodes k) = openAt P nodes (Suc k)"
  unfolding openAt_Suc by (rule dropWhile_closable_sorted) (rule pushed_sorted_key)

lemma closed_by_pop:
  "takeWhile (\<lambda>i. closable (nextDepth nodes k) (depth (nodes ! i)))
     ((if P (node (nodes ! k)) then [k] else []) @ openAt P nodes k) = closedAt P nodes k"
  unfolding closedAt_eq by (rule takeWhile_closable_sorted) (rule pushed_sorted_key)

subsection \<open>The stacks of the program hold the open scopes\<close>

lemma codeStack_closeOut:
  "codeStack (closeOut nd st) = dropWhile (\<lambda>f. closable nd (depth f)) (codeStack st)"
  by (simp add: closeOut_def closeQuote_def closeList_def closeCode_def closeLink_def
      popCode_eq popQuote_eq split: list.splits)

lemma quoteStack_closeOut:
  "quoteStack (closeOut nd st) = dropWhile (\<lambda>f. closable nd (depth f)) (quoteStack st)"
  by (simp add: closeOut_def closeQuote_def closeList_def closeCode_def closeLink_def
      popCode_eq popQuote_eq split: list.splits)

lemma listStack_closeOut:
  "listStack (closeOut nd st) = dropWhile (\<lambda>f. closable nd (depth f)) (listStack st)"
  by (simp add: closeOut_def closeQuote_def closeList_def closeCode_def closeLink_def
      popCode_eq popQuote_eq popList_eq split: list.splits)

lemma codeStack_dispatch:
  "dispatch d n st = Inr st' \<Longrightarrow>
     codeStack st' = (if isCodeNode n then [\<lparr>depth = d\<rparr>] else []) @ codeStack st"
  by (cases n) (auto simp: isCodeNode_def Let_def split: if_splits list.splits)

lemma quoteStack_dispatch:
  "dispatch d n st = Inr st' \<Longrightarrow>
     quoteStack st' = (if isQuoteNode n then [\<lparr>depth = d\<rparr>] else []) @ quoteStack st"
  by (cases n) (auto simp: isQuoteNode_def Let_def split: if_splits list.splits)

lemma body_Inr:
  "body nodes k s = Inr st \<Longrightarrow>
     \<exists>s1. dispatch (depth (nodes ! k)) (node (nodes ! k)) s = Inr s1
          \<and> st = closeOut (nextDepth nodes k) s1"
  by (auto simp: body_def split: sum.splits)

lemma codeStack_open:
  "loop nodes k = Inr st \<Longrightarrow>
     codeStack st = map (\<lambda>i. \<lparr>depth = depth (nodes ! i)\<rparr>) (openAt isCodeNode nodes k)"
proof (induction k arbitrary: st)
  case 0
  then show ?case by (auto simp: openAt_0 initial_def)
next
  case (Suc k)
  from loop_Suc_Inr [OF Suc.prems] obtain s where
    s: "loop nodes k = Inr s" and b: "body nodes k s = Inr st" by blast
  from body_Inr [OF b] obtain s1 where
    d: "dispatch (depth (nodes ! k)) (node (nodes ! k)) s = Inr s1"
    and c: "st = closeOut (nextDepth nodes k) s1" by blast
  have "codeStack s1 = map (\<lambda>i. \<lparr>depth = depth (nodes ! i)\<rparr>)
          ((if isCodeNode (node (nodes ! k)) then [k] else []) @ openAt isCodeNode nodes k)"
    using codeStack_dispatch [OF d] Suc.IH [OF s] by simp
  then show ?case
    unfolding c codeStack_closeOut
    by (simp only: dropWhile_map comp_def frame.simps open_after_pop)
qed

lemma quoteStack_open:
  "loop nodes k = Inr st \<Longrightarrow>
     quoteStack st = map (\<lambda>i. \<lparr>depth = depth (nodes ! i)\<rparr>) (openAt isQuoteNode nodes k)"
proof (induction k arbitrary: st)
  case 0
  then show ?case by (auto simp: openAt_0 initial_def)
next
  case (Suc k)
  from loop_Suc_Inr [OF Suc.prems] obtain s where
    s: "loop nodes k = Inr s" and b: "body nodes k s = Inr st" by blast
  from body_Inr [OF b] obtain s1 where
    d: "dispatch (depth (nodes ! k)) (node (nodes ! k)) s = Inr s1"
    and c: "st = closeOut (nextDepth nodes k) s1" by blast
  have "quoteStack s1 = map (\<lambda>i. \<lparr>depth = depth (nodes ! i)\<rparr>)
          ((if isQuoteNode (node (nodes ! k)) then [k] else []) @ openAt isQuoteNode nodes k)"
    using quoteStack_dispatch [OF d] Suc.IH [OF s] by simp
  then show ?case
    unfolding c quoteStack_closeOut
    by (simp only: dropWhile_map comp_def frame.simps open_after_pop)
qed

subsection \<open>The list stack and its counters\<close>

lemma markersBefore_Suc:
  "markersBefore nodes i (Suc k) =
     markersBefore nodes i k + (if markerUnder nodes i k then 1 else 0)"
  by (simp add: markersBefore_def)

lemma markerUnder_later: "j \<le> i \<Longrightarrow> \<not> markerUnder nodes i j"
  using openAt_less [of i isListNode nodes j]
  by (auto simp: markerUnder_def split: list.splits)

lemma markersBefore_fresh: "k \<le> Suc i \<Longrightarrow> markersBefore nodes i k = 0"
  by (simp add: markersBefore_def markerUnder_later)

lemma listFrameAt_Suc_other:
  "\<not> markerUnder nodes i k \<Longrightarrow> listFrameAt nodes (Suc k) i = listFrameAt nodes k i"
  by (simp add: listFrameAt_def markersBefore_Suc)

lemma markerUnder_top:
  "markerUnder nodes i k \<Longrightarrow> \<exists>below. openAt isListNode nodes k = i # below"
  by (auto simp: markerUnder_def split: list.splits)

lemma listStack_dispatch:
  assumes inv: "listStack s = map (listFrameAt nodes k) (openAt isListNode nodes k)"
    and d: "dispatch (depth (nodes ! k)) (node (nodes ! k)) s = Inr s1"
  shows "listStack s1 = map (listFrameAt nodes (Suc k))
           ((if isListNode (node (nodes ! k)) then [k] else []) @ openAt isListNode nodes k)"
proof (cases "node (nodes ! k) = ListItemNode False")
  case False
  then have no: "\<And>i. \<not> markerUnder nodes i k" by (simp add: markerUnder_def)
  then have same: "map (listFrameAt nodes (Suc k)) (openAt isListNode nodes k) = listStack s"
    by (simp add: inv listFrameAt_Suc_other)
  show ?thesis
  proof (cases "node (nodes ! k)")
    case (ListNode t)
    have "listFrameAt nodes (Suc k) k = \<lparr>depth = depth (nodes ! k), count = 0, tag = t\<rparr>"
      by (simp add: listFrameAt_def markersBefore_fresh ListNode listTagOf_def)
    with d ListNode same show ?thesis by (auto simp: isListNode_def)
  next
    case (ListItemNode b)
    with False have "b" by simp
    with d ListItemNode same show ?thesis by (auto simp: isListNode_def)
  qed (use d same in \<open>auto simp: isListNode_def split: if_splits\<close>)
next
  case True
  then have nl: "\<not> isListNode (node (nodes ! k))" by (simp add: isListNode_def)
  from d True inv obtain i0 below where op: "openAt isListNode nodes k = i0 # below"
    by (cases "openAt isListNode nodes k") (auto simp: Let_def)
  have dist: "i0 \<notin> set below" using openAt_distinct [of isListNode nodes k] op by simp
  have others: "\<And>i. i \<in> set below \<Longrightarrow> \<not> markerUnder nodes i k"
    using dist op by (auto simp: markerUnder_def)
  then have below: "map (listFrameAt nodes (Suc k)) below = map (listFrameAt nodes k) below"
    by (simp add: listFrameAt_Suc_other)
  have top: "markerUnder nodes i0 k \<longleftrightarrow> listTagOf (node (nodes ! i0)) = ''ol''"
    using True op by (simp add: markerUnder_def)
  have st: "listStack s = listFrameAt nodes k i0 # map (listFrameAt nodes k) below"
    using inv op by simp
  show ?thesis
  proof (cases "listTagOf (node (nodes ! i0)) = ''ol''")
    case ol: True
    have "listFrameAt nodes (Suc k) i0 =
            (listFrameAt nodes k i0)\<lparr>count := count (listFrameAt nodes k i0) + 1\<rparr>"
      using ol top by (simp add: listFrameAt_def markersBefore_Suc)
    moreover have "tag (listFrameAt nodes k i0) = ''ol''"
      using ol by (simp add: listFrameAt_def)
    ultimately show ?thesis
      using d True st nl op below by (auto simp: Let_def)
  next
    case nol: False
    have "listFrameAt nodes (Suc k) i0 = listFrameAt nodes k i0"
      using nol top by (simp add: listFrameAt_Suc_other)
    moreover have "tag (listFrameAt nodes k i0) \<noteq> ''ol''"
      using nol by (simp add: listFrameAt_def)
    ultimately show ?thesis
      using d True st nl op below by (auto simp: Let_def split: if_splits)
  qed
qed

lemma depth_listFrameAt: "depth (listFrameAt nodes k i) = depth (nodes ! i)"
  by (simp add: listFrameAt_def)

lemma listStack_open:
  "loop nodes k = Inr st \<Longrightarrow>
     listStack st = map (listFrameAt nodes k) (openAt isListNode nodes k)"
proof (induction k arbitrary: st)
  case 0
  then show ?case by (auto simp: openAt_0 initial_def)
next
  case (Suc k)
  from loop_Suc_Inr [OF Suc.prems] obtain s where
    s: "loop nodes k = Inr s" and b: "body nodes k s = Inr st" by blast
  from body_Inr [OF b] obtain s1 where
    d: "dispatch (depth (nodes ! k)) (node (nodes ! k)) s = Inr s1"
    and c: "st = closeOut (nextDepth nodes k) s1" by blast
  from listStack_dispatch [OF Suc.IH [OF s] d]
  show ?case
    unfolding c listStack_closeOut
    by (simp only: dropWhile_map comp_def depth_listFrameAt open_after_pop)
qed

subsection \<open>No iteration throws on a well-formed sequence\<close>

lemma dispatch_Inl:
  "dispatch d n st = Inl e \<Longrightarrow> n = ListItemNode False \<and> listStack st = []"
  by (cases n) (auto simp: Let_def split: if_splits list.splits)

lemma enclosed_open:
  assumes k: "k < length nodes" and e: "enclosedByList nodes k"
  shows "openAt isListNode nodes k \<noteq> []"
proof -
  from e obtain i where i: "i < k" "isListNode (node (nodes ! i))"
    and deeper: "\<forall>j\<in>{i<..k}. depth (nodes ! i) < depth (nodes ! j)"
    by (auto simp: enclosedByList_def)
  have "stillOpen nodes i k"
    unfolding stillOpen_def
  proof
    fix j assume "j \<in> {i..<k}"
    then have "Suc j \<in> {i<..k}" and len: "Suc j < length nodes" using k by auto
    with deeper have "depth (nodes ! i) < depth (nodes ! Suc j)" by blast
    with len show "\<not> closable (nextDepth nodes j) (depth (nodes ! i))"
      by (simp add: closable_def nextDepth_def)
  qed
  with i have "i \<in> set (openAt isListNode nodes k)" by (simp add: openAt_def)
  then show ?thesis by auto
qed

lemma loop_total:
  assumes wf: "wellFormed nodes"
  shows "k \<le> length nodes \<Longrightarrow> \<exists>st. loop nodes k = Inr st"
proof (induction k)
  case 0
  show ?case by simp
next
  case (Suc k)
  then obtain s where s: "loop nodes k = Inr s" and k: "k < length nodes" by auto
  have "\<exists>s1. dispatch (depth (nodes ! k)) (node (nodes ! k)) s = Inr s1"
  proof (rule ccontr)
    assume "\<not> ?thesis"
    then obtain e where "dispatch (depth (nodes ! k)) (node (nodes ! k)) s = Inl e"
      by (cases "dispatch (depth (nodes ! k)) (node (nodes ! k)) s") auto
    from dispatch_Inl [OF this] have item: "node (nodes ! k) = ListItemNode False"
      and empty: "listStack s = []" by simp_all
    from item wf k have "enclosedByList nodes k"
      by (auto simp: wellFormed_def isListItemNode_def)
    from enclosed_open [OF k this] listStack_open [OF s] empty show False by simp
  qed
  with s show ?case by (auto simp: body_def)
qed

text \<open>
  C3. On a well-formed sequence the serializer returns a string: no iteration throws. The
  one operation that can throw, the indentation of a list-item marker under an empty list
  stack, is never reached, since a list item in the subtree of a list node finds the frame
  of that list still on the stack. A node of no recognised kind changes nothing.
\<close>

theorem C3_total_on_well_formed:
  "wellFormed nodes \<Longrightarrow>
     (\<exists>out. convertToMarkdownString nodes = Inr out) \<and> dispatch d OtherNode st = Inr st"
  using loop_total [of nodes "length nodes"]
  by (auto simp: convertToMarkdownString_def)

theorem C3_total_on_well_formed_witness:
  "wellFormed [\<lparr>depth = 0, node = OtherNode\<rparr>, \<lparr>depth = 1, node = ListNode ''ul''\<rparr>,
               \<lparr>depth = 2, node = ListItemNode False\<rparr>,
               \<lparr>depth = 3, node = TextNode ''a'' False False False False\<rparr>]
   \<and> (\<exists>out. convertToMarkdownString
               [\<lparr>depth = 0, node = OtherNode\<rparr>, \<lparr>depth = 1, node = ListNode ''ul''\<rparr>,
                \<lparr>depth = 2, node = ListItemNode False\<rparr>,
                \<lparr>depth = 3, node = TextNode ''a'' False False False False\<rparr>] = Inr out)"
proof -
  have wf: "wellFormed [\<lparr>depth = 0, node = OtherNode\<rparr>, \<lparr>depth = 1, node = ListNode ''ul''\<rparr>,
               \<lparr>depth = 2, node = ListItemNode False\<rparr>,
               \<lparr>depth = 3, node = TextNode ''a'' False False False False\<rparr>]"
    by code_simp
  from C3_total_on_well_formed [OF wf] wf show ?thesis by blast
qed

subsection \<open>What an iteration appends, and code fences\<close>

lemma text_closeOut:
  "text (closeOut nd st) =
     text (closeLink nd st)
       @ concat (replicate (length (takeWhile (\<lambda>f. closable nd (depth f)) (codeStack st))) fence)
       @ replicate (length (takeWhile (\<lambda>f. closable nd (depth f)) (quoteStack st))) newline"
  by (simp add: closeOut_def closeQuote_def closeList_def closeCode_def closeLink_def
      popCode_eq popQuote_eq split: list.splits)

lemma length_takeWhile_map:
  "length (takeWhile P (map f xs)) = length (takeWhile (P \<circ> f) xs)"
  by (simp add: takeWhile_map)

lemma body_text:
  assumes s: "loop nodes k = Inr s" and b: "body nodes k s = Inr st"
  shows "\<exists>s1. dispatch (depth (nodes ! k)) (node (nodes ! k)) s = Inr s1 \<and>
           text st = text (closeLink (nextDepth nodes k) s1)
             @ concat (replicate (length (closedAt isCodeNode nodes k)) fence)
             @ replicate (length (closedAt isQuoteNode nodes k)) newline"
proof -
  from body_Inr [OF b] obtain s1 where
    d: "dispatch (depth (nodes ! k)) (node (nodes ! k)) s = Inr s1"
    and c: "st = closeOut (nextDepth nodes k) s1" by blast
  have code: "codeStack s1 = map (\<lambda>i. \<lparr>depth = depth (nodes ! i)\<rparr>)
          ((if isCodeNode (node (nodes ! k)) then [k] else []) @ openAt isCodeNode nodes k)"
    using codeStack_dispatch [OF d] codeStack_open [OF s] by simp
  have quote: "quoteStack s1 = map (\<lambda>i. \<lparr>depth = depth (nodes ! i)\<rparr>)
          ((if isQuoteNode (node (nodes ! k)) then [k] else []) @ openAt isQuoteNode nodes k)"
    using quoteStack_dispatch [OF d] quoteStack_open [OF s] by simp
  have "text st = text (closeLink (nextDepth nodes k) s1)
             @ concat (replicate (length (closedAt isCodeNode nodes k)) fence)
             @ replicate (length (closedAt isQuoteNode nodes k)) newline"
    unfolding c text_closeOut code quote
    by (simp only: length_takeWhile_map comp_def frame.simps closed_by_pop)
  with d show ?thesis by blast
qed

lemma open_closed_count:
  "length (openAt P nodes (Suc k)) + length (closedAt P nodes k) =
     length (openAt P nodes k) + (if P (node (nodes ! k)) then 1 else 0)"
proof -
  define xs where "xs = (if P (node (nodes ! k)) then [k] else []) @ openAt P nodes k"
  define Q where "Q i \<longleftrightarrow> closable (nextDepth nodes k) (depth (nodes ! i))" for i
  have "length (filter (\<lambda>i. \<not> Q i) xs) + length (filter Q xs) = length xs"
    using sum_length_filter_compl [of Q xs] by simp
  moreover have "openAt P nodes (Suc k) = filter (\<lambda>i. \<not> Q i) xs"
    unfolding openAt_Suc xs_def Q_def ..
  moreover have "closedAt P nodes k = filter Q xs"
    unfolding closedAt_eq xs_def Q_def ..
  moreover have "length xs = length (openAt P nodes k) + (if P (node (nodes ! k)) then 1 else 0)"
    by (simp add: xs_def)
  ultimately show ?thesis by simp
qed

lemma closed_total:
  "n \<le> length nodes \<Longrightarrow>
     (\<Sum>k<n. length (closedAt P nodes k)) + length (openAt P nodes n) =
       length (filter (\<lambda>e. P (node e)) (take n nodes))"
proof (induction n)
  case 0
  show ?case by (simp add: openAt_0)
next
  case (Suc n)
  then have n: "n < length nodes" by simp
  with Suc have IH: "(\<Sum>k<n. length (closedAt P nodes k)) + length (openAt P nodes n) =
       length (filter (\<lambda>e. P (node e)) (take n nodes))" by simp
  have "length (filter (\<lambda>e. P (node e)) (take (Suc n) nodes)) =
      length (filter (\<lambda>e. P (node e)) (take n nodes)) + (if P (node (nodes ! n)) then 1 else 0)"
    using n by (simp add: take_Suc_conv_app_nth)
  with IH open_closed_count [of P nodes n] show ?case by simp
qed

lemma openAt_end: "openAt P nodes (length nodes) = []"
proof (cases "length nodes")
  case 0
  then show ?thesis by (simp add: openAt_def)
next
  case (Suc n)
  have "nextDepth nodes n = None" using Suc by (simp add: nextDepth_def)
  then show ?thesis
    unfolding Suc openAt_Suc by (simp add: closable_def)
qed

lemma closedAt_mem:
  "i \<in> set (closedAt P nodes k) \<longleftrightarrow>
     i \<le> k \<and> P (node (nodes ! i)) \<and> stillOpen nodes i k
       \<and> closable (nextDepth nodes k) (depth (nodes ! i))"
  unfolding closedAt_def set_filter set_rev set_upt by auto

lemma closed_once:
  assumes i: "i < length nodes" and P: "P (node (nodes ! i))"
  shows "\<exists>!k. k < length nodes \<and> i \<in> set (closedAt P nodes k)"
proof -
  define C where "C j \<longleftrightarrow> i \<le> j \<and> closable (nextDepth nodes j) (depth (nodes ! i))" for j
  have last: "C (length nodes - 1)"
    using i by (auto simp: C_def nextDepth_def closable_def)
  define k0 where "k0 = (LEAST j. C j)"
  have k0: "C k0" unfolding k0_def using last by (rule LeastI)
  have least: "\<And>j. C j \<Longrightarrow> k0 \<le> j" unfolding k0_def by (rule Least_le)
  have mem: "i \<in> set (closedAt P nodes k) \<longleftrightarrow> k = k0" for k
  proof
    assume "i \<in> set (closedAt P nodes k)"
    then have ik: "i \<le> k" and op: "stillOpen nodes i k"
      and cl: "closable (nextDepth nodes k) (depth (nodes ! i))"
      by (simp_all add: closedAt_mem)
    from ik cl have "C k" by (simp add: C_def)
    then have "k0 \<le> k" by (rule least)
    moreover have "\<not> k0 < k"
    proof
      assume "k0 < k"
      with k0 op show False by (auto simp: C_def stillOpen_def)
    qed
    ultimately show "k = k0" by simp
  next
    assume k: "k = k0"
    have "stillOpen nodes i k0"
      unfolding stillOpen_def
    proof
      fix j assume j: "j \<in> {i..<k0}"
      show "\<not> closable (nextDepth nodes j) (depth (nodes ! i))"
      proof
        assume "closable (nextDepth nodes j) (depth (nodes ! i))"
        with j have "C j" by (simp add: C_def)
        from least [OF this] j show False by simp
      qed
    qed
    with k0 P show "i \<in> set (closedAt P nodes k)"
      unfolding k by (simp add: closedAt_mem C_def)
  qed
  have "k0 < length nodes" using least [OF last] i by simp
  with mem show ?thesis by auto
qed

text \<open>
  C7. A code node emits one opening fence (three backticks and a line break) and pushes
  one frame. Each iteration appends, after the closing text of a link, one closing fence
  (a line break and three backticks) for each code scope that ends at this position, then
  one line break for each quote scope that ends there. The scope of a code node ends at
  exactly one position of the sequence, also when the node has no children or is the last
  entry, so the closing fences appended over the whole run are as many as the code nodes,
  and no code frame is left on the stack when the loop ends.
\<close>

theorem C7_code_fences_balanced:
  "dispatch d CodeNode st =
     Inr (st\<lparr>text := appendLineBreak (text st) (shouldAppendFirstLineBreak st)
                      @ [backtick, backtick, backtick, newline],
             codeStack := \<lparr>depth = d\<rparr> # codeStack st\<rparr>)
   \<and> (loop nodes k = Inr s \<and> body nodes k s = Inr st' \<longrightarrow>
        (\<exists>s1. dispatch (depth (nodes ! k)) (node (nodes ! k)) s = Inr s1 \<and>
           text st' = text (closeLink (nextDepth nodes k) s1)
             @ concat (replicate (length (closedAt isCodeNode nodes k)) fence)
             @ replicate (length (closedAt isQuoteNode nodes k)) newline))
   \<and> (i < length nodes \<and> node (nodes ! i) = CodeNode \<longrightarrow>
        (\<exists>!k. k < length nodes \<and> i \<in> set (closedAt isCodeNode nodes k)))
   \<and> (\<Sum>k<length nodes. length (closedAt isCodeNode nodes k)) =
        length (filter (\<lambda>e. node e = CodeNode) nodes)
   \<and> (loop nodes (length nodes) = Inr final \<longrightarrow> codeStack final = [])"
proof (intro conjI impI)
  show "dispatch d CodeNode st =
     Inr (st\<lparr>text := appendLineBreak (text st) (shouldAppendFirstLineBreak st)
                      @ [backtick, backtick, backtick, newline],
             codeStack := \<lparr>depth = d\<rparr> # codeStack st\<rparr>)"
    by simp
next
  assume "loop nodes k = Inr s \<and> body nodes k s = Inr st'"
  then show "\<exists>s1. dispatch (depth (nodes ! k)) (node (nodes ! k)) s = Inr s1 \<and>
           text st' = text (closeLink (nextDepth nodes k) s1)
             @ concat (replicate (length (closedAt isCodeNode nodes k)) fence)
             @ replicate (length (closedAt isQuoteNode nodes k)) newline"
    using body_text [of nodes k s st'] by blast
next
  assume "i < length nodes \<and> node (nodes ! i) = CodeNode"
  then show "\<exists>!k. k < length nodes \<and> i \<in> set (closedAt isCodeNode nodes k)"
    using closed_once [of i nodes isCodeNode] by (simp add: isCodeNode_def)
next
  show "(\<Sum>k<length nodes. length (closedAt isCodeNode nodes k)) =
        length (filter (\<lambda>e. node e = CodeNode) nodes)"
    using closed_total [of "length nodes" nodes isCodeNode]
    by (simp add: openAt_end isCodeNode_def)
next
  assume "loop nodes (length nodes) = Inr final"
  from codeStack_open [OF this] show "codeStack final = []"
    by (simp add: openAt_end)
qed

theorem C7_code_fences_balanced_witness:
  "loop [\<lparr>depth = 0, node = OtherNode\<rparr>, \<lparr>depth = 1, node = CodeNode\<rparr>] 1 = Inr initial
   \<and> body [\<lparr>depth = 0, node = OtherNode\<rparr>, \<lparr>depth = 1, node = CodeNode\<rparr>] 1 initial =
       Inr (initial\<lparr>text := [backtick, backtick, backtick, newline] @ fence\<rparr>)
   \<and> closedAt isCodeNode [\<lparr>depth = 0, node = OtherNode\<rparr>, \<lparr>depth = 1, node = CodeNode\<rparr>] 1 = [1]
   \<and> (\<exists>!k. k < length [\<lparr>depth = 0, node = OtherNode\<rparr>, \<lparr>depth = 1, node = CodeNode\<rparr>] \<and>
         1 \<in> set (closedAt isCodeNode
                    [\<lparr>depth = 0, node = OtherNode\<rparr>, \<lparr>depth = 1, node = CodeNode\<rparr>] k))
   \<and> loop [\<lparr>depth = 0, node = OtherNode\<rparr>, \<lparr>depth = 1, node = CodeNode\<rparr>]
        (length [\<lparr>depth = 0, node = OtherNode\<rparr>, \<lparr>depth = 1, node = CodeNode\<rparr>]) =
       Inr (initial\<lparr>text := [backtick, backtick, backtick, newline] @ fence\<rparr>)
   \<and> codeStack (initial\<lparr>text := [backtick, backtick, backtick, newline] @ fence\<rparr>) = []"
proof -
  let ?nodes = "[\<lparr>depth = 0, node = OtherNode\<rparr>, \<lparr>depth = 1, node = CodeNode\<rparr>]"
  let ?final = "initial\<lparr>text := [backtick, backtick, backtick, newline] @ fence\<rparr>"
  have l1: "loop ?nodes 1 = Inr initial"
    by (simp add: body_def nextDepth_def initial_def closeOut_def closeLink_def closeCode_def
        closeList_def closeQuote_def closable_def)
  have b1: "body ?nodes 1 initial = Inr ?final"
    by (simp add: body_def nextDepth_def initial_def closeOut_def closeLink_def closeCode_def
        closeList_def closeQuote_def closable_def appendLineBreak_def fence_def)
  have l2: "loop ?nodes (length ?nodes) = Inr ?final"
    using l1 b1 by simp
  have c: "closedAt isCodeNode ?nodes 1 = [1]"
    by (simp add: closedAt_def isCodeNode_def stillOpen_def nextDepth_def closable_def)
  have i: "(1::nat) < length ?nodes \<and> node (?nodes ! 1) = CodeNode" by simp
  from C7_code_fences_balanced [of 1 initial ?nodes 1 initial ?final 1 ?final] l1 b1 l2 c i
  show ?thesis by simp
qed

subsection \<open>Numbering of ordered lists\<close>

lemma decimal_1: "decimal (Suc 0) = ''1''"
  by code_simp

lemma marker_dispatch:
  assumes s: "loop nodes k = Inr s"
    and item: "node (nodes ! k) = ListItemNode False"
    and op: "openAt isListNode nodes k = i # below"
    and ol: "node (nodes ! i) = ListNode ''ol''"
  shows "dispatch (depth (nodes ! k)) (node (nodes ! k)) s =
     Inr (s\<lparr>text := appendLineBreak (text s) (shouldAppendFirstLineBreak s)
                     @ replicate (4 * length below) (CHR '' '')
                     @ decimal (markersBefore nodes i k + 1) @ ''. '',
            listStack := map (listFrameAt nodes (Suc k)) (i # below)\<rparr>)"
proof -
  have st: "listStack s = listFrameAt nodes k i # map (listFrameAt nodes k) below"
    using listStack_open [OF s] op by simp
  have tg: "tag (listFrameAt nodes k i) = ''ol''"
    using ol by (simp add: listFrameAt_def listTagOf_def)
  have ct: "count (listFrameAt nodes k i) = markersBefore nodes i k"
    by (simp add: listFrameAt_def)
  define s1 where "s1 = s\<lparr>text := appendLineBreak (text s) (shouldAppendFirstLineBreak s)
                     @ replicate (4 * length below) (CHR '' '')
                     @ decimal (markersBefore nodes i k + 1) @ ''. '',
            listStack := (listFrameAt nodes k i)\<lparr>count := markersBefore nodes i k + 1\<rparr>
                           # map (listFrameAt nodes k) below\<rparr>"
  have d: "dispatch (depth (nodes ! k)) (node (nodes ! k)) s = Inr s1"
    unfolding s1_def item using st tg ct by (simp add: Let_def mult.commute)
  have nl: "\<not> isListNode (node (nodes ! k))" using item by (simp add: isListNode_def)
  from listStack_dispatch [OF listStack_open [OF s] d] nl op
  have "listStack s1 = map (listFrameAt nodes (Suc k)) (i # below)" by simp
  then have "s1 = s\<lparr>text := appendLineBreak (text s) (shouldAppendFirstLineBreak s)
                     @ replicate (4 * length below) (CHR '' '')
                     @ decimal (markersBefore nodes i k + 1) @ ''. '',
            listStack := map (listFrameAt nodes (Suc k)) (i # below)\<rparr>"
    by (simp add: s1_def)
  with d show ?thesis by simp
qed

text \<open>
  C6. A list node pushes a frame whose counter is 0. A list item that needs a marker and
  whose innermost open list is the ordered list of position \<open>i\<close> prints, after the
  indentation, the number of the marker items visited so far under that same list plus
  one, and leaves that number in the counter of the frame; the counters of the other
  frames count the items of their own lists only. So the first such item of every ordered
  list prints \<open>1\<close>, whatever was numbered before in a sibling list or in a list at another
  depth.
\<close>

theorem C6_ordered_list_numbering:
  "dispatch d (ListNode t) st =
     Inr (st\<lparr>listStack := \<lparr>depth = d, count = 0, tag = t\<rparr> # listStack st\<rparr>)
   \<and> (loop nodes k = Inr s \<and> node (nodes ! k) = ListItemNode False \<and>
      openAt isListNode nodes k = i # below \<and> node (nodes ! i) = ListNode ''ol'' \<longrightarrow>
        dispatch (depth (nodes ! k)) (node (nodes ! k)) s =
          Inr (s\<lparr>text := appendLineBreak (text s) (shouldAppendFirstLineBreak s)
                     @ replicate (4 * length below) (CHR '' '')
                     @ decimal (markersBefore nodes i k + 1) @ ''. '',
                 listStack := map (listFrameAt nodes (Suc k)) (i # below)\<rparr>)
        \<and> count (listFrameAt nodes (Suc k) i) = markersBefore nodes i k + 1
        \<and> (\<forall>j\<in>set below. count (listFrameAt nodes (Suc k) j) = count (listFrameAt nodes k j))
        \<and> ((\<forall>j\<in>{..<k}. \<not> markerUnder nodes i j) \<longrightarrow>
             decimal (markersBefore nodes i k + 1) = ''1''))"
proof (intro conjI impI)
  show "dispatch d (ListNode t) st =
     Inr (st\<lparr>listStack := \<lparr>depth = d, count = 0, tag = t\<rparr> # listStack st\<rparr>)"
    by simp
next
  assume a: "loop nodes k = Inr s \<and> node (nodes ! k) = ListItemNode False \<and>
      openAt isListNode nodes k = i # below \<and> node (nodes ! i) = ListNode ''ol''"
  then show "dispatch (depth (nodes ! k)) (node (nodes ! k)) s =
          Inr (s\<lparr>text := appendLineBreak (text s) (shouldAppendFirstLineBreak s)
                     @ replicate (4 * length below) (CHR '' '')
                     @ decimal (markersBefore nodes i k + 1) @ ''. '',
                 listStack := map (listFrameAt nodes (Suc k)) (i # below)\<rparr>)"
    using marker_dispatch [of nodes k s i below] by blast
  from a have "markerUnder nodes i k"
    by (simp add: markerUnder_def listTagOf_def)
  then show "count (listFrameAt nodes (Suc k) i) = markersBefore nodes i k + 1"
    by (simp add: listFrameAt_def markersBefore_Suc)
  show "\<forall>j\<in>set below. count (listFrameAt nodes (Suc k) j) = count (listFrameAt nodes k j)"
  proof
    fix j assume "j \<in> set below"
    with a openAt_distinct [of isListNode nodes k] have "j \<noteq> i" by auto
    with a have "\<not> markerUnder nodes j k" by (auto simp: markerUnder_def)
    then show "count (listFrameAt nodes (Suc k) j) = count (listFrameAt nodes k j)"
      by (simp add: listFrameAt_Suc_other)
  qed
next
  assume "\<forall>j\<in>{..<k}. \<not> markerUnder nodes i j"
  then have "filter (markerUnder nodes i) [0..<k] = []" by (auto simp: filter_empty_conv)
  then have "markersBefore nodes i k = 0" by (simp add: markersBefore_def)
  then show "decimal (markersBefore nodes i k + 1) = ''1''" by (simp add: decimal_1)
qed

theorem C6_ordered_list_numbering_witness:
  "loop siblingLists 7 =
     Inr (initial\<lparr>text := ''1. a'' @ [newline] @ ''2. b'',
                  listStack := [\<lparr>depth = 1, count = 0, tag = ''ol''\<rparr>]\<rparr>)
   \<and> node (siblingLists ! 7) = ListItemNode False
   \<and> openAt isListNode siblingLists 7 = [6]
   \<and> node (siblingLists ! 6) = ListNode ''ol''
   \<and> markersBefore siblingLists 6 7 = 0
   \<and> markersBefore siblingLists 1 7 = 2
   \<and> dispatch (depth (siblingLists ! 7)) (node (siblingLists ! 7))
        (initial\<lparr>text := ''1. a'' @ [newline] @ ''2. b'',
                 listStack := [\<lparr>depth = 1, count = 0, tag = ''ol''\<rparr>]\<rparr>) =
       Inr (initial\<lparr>text := ''1. a'' @ [newline] @ ''2. b'' @ [newline] @ ''1. '',
                  listStack := [\<lparr>depth = 1, count = 1, tag = ''ol''\<rparr>]\<rparr>)
   \<and> convertToMarkdownString siblingLists =
       Inr (''1. a'' @ [newline] @ ''2. b'' @ [newline] @ ''1. c'')"
proof -
  let ?s = "initial\<lparr>text := ''1. a'' @ [newline] @ ''2. b'',
                  listStack := [\<lparr>depth = 1, count = 0, tag = ''ol''\<rparr>]\<rparr>"
  have l: "loop siblingLists 7 = Inr ?s" by code_simp
  have n: "node (siblingLists ! 7) = ListItemNode False" by code_simp
  have op: "openAt isListNode siblingLists 7 = [6]" by code_simp
  have ol: "node (siblingLists ! 6) = ListNode ''ol''" by code_simp
  have first: "\<forall>j\<in>{..<7}. \<not> markerUnder siblingLists 6 j" by code_simp
  have none: "markersBefore siblingLists 6 7 = 0" by code_simp
  have other: "markersBefore siblingLists 1 7 = 2" by code_simp
  have out: "convertToMarkdownString siblingLists =
       Inr (''1. a'' @ [newline] @ ''2. b'' @ [newline] @ ''1. c'')" by code_simp
  have fr: "listFrameAt siblingLists (Suc 7) 6 = \<lparr>depth = 1, count = 1, tag = ''ol''\<rparr>"
    by code_simp
  have ap: "appendLineBreak (''1. a'' @ [newline] @ ''2. b'') False
              = ''1. a'' @ [newline] @ ''2. b'' @ [newline]"
    by (simp add: appendLineBreak_def)
  from C6_ordered_list_numbering [of 0 "''ol''" initial siblingLists 7 ?s 6 "[]"]
    l n op ol first
  have "dispatch (depth (siblingLists ! 7)) (node (siblingLists ! 7)) ?s =
     Inr (?s\<lparr>text := appendLineBreak (text ?s) (shouldAppendFirstLineBreak ?s)
                     @ replicate (4 * length ([]::nat list)) (CHR '' '')
                     @ ''1'' @ ''. '',
            listStack := map (listFrameAt siblingLists (Suc 7)) [6]\<rparr>)"
    by simp
  then have "dispatch (depth (siblingLists ! 7)) (node (siblingLists ! 7)) ?s =
       Inr (initial\<lparr>text := ''1. a'' @ [newline] @ ''2. b'' @ [newline] @ ''1. '',
                  listStack := [\<lparr>depth = 1, count = 1, tag = ''ol''\<rparr>]\<rparr>)"
    using fr ap by (simp add: initial_def)
  with l n op ol none other out show ?thesis by blast
qed

subsection \<open>The link stack when links are not nested\<close>

lemma closingBracketStack_closeOut:
  "closingBracketStack (closeOut nd st) =
     (case closingBracketStack st of
        [] \<Rightarrow> []
      | f # below \<Rightarrow> if closable nd (depth f) then below else f # below)"
  by (simp add: closeOut_def closeQuote_def closeList_def closeCode_def closeLink_def
      popCode_eq popQuote_eq split: list.splits)

lemma closingBracketStack_dispatch:
  "dispatch d n st = Inr st' \<Longrightarrow>
     closingBracketStack st' =
       (if isLinkNode n
        then [\<lparr>depth = d, endText = '']('' @ encodeURL (linkUrlOf n) @ '')''\<rparr>] else [])
       @ closingBracketStack st"
  by (cases n) (auto simp: isLinkNode_def linkUrlOf_def Let_def split: if_splits list.splits)

lemma one_pop_enough:
  "length xs \<le> 1 \<Longrightarrow>
     (case xs of [] \<Rightarrow> [] | f # below \<Rightarrow> if P f then below else f # below) = dropWhile P xs"
  by (cases xs) auto

lemma open_links_at_most_one:
  assumes "linksNotNested nodes"
  shows "k \<le> length nodes \<Longrightarrow> length (openAt isLinkNode nodes k) \<le> 1"
proof (induction k)
  case 0
  show ?case by (simp add: openAt_0)
next
  case (Suc k)
  then have k: "k < length nodes" and IH: "length (openAt isLinkNode nodes k) \<le> 1" by simp_all
  have "length ((if isLinkNode (node (nodes ! k)) then [k] else [])
                 @ openAt isLinkNode nodes k) \<le> 1"
    using assms k IH by (auto simp: linksNotNested_def)
  then show ?case
    unfolding openAt_Suc
    using length_filter_le [of "\<lambda>i. \<not> closable (nextDepth nodes k) (depth (nodes ! i))"
        "(if isLinkNode (node (nodes ! k)) then [k] else []) @ openAt isLinkNode nodes k"]
    by linarith
qed

lemma closingBracketStack_open:
  assumes nn: "linksNotNested nodes"
  shows "k \<le> length nodes \<Longrightarrow> loop nodes k = Inr st \<Longrightarrow>
     closingBracketStack st = map (linkFrameAt nodes) (openAt isLinkNode nodes k)"
proof (induction k arbitrary: st)
  case 0
  then show ?case by (auto simp: openAt_0 initial_def)
next
  case (Suc k)
  then have k: "k < length nodes" by simp
  from loop_Suc_Inr [OF Suc.prems(2)] obtain s where
    s: "loop nodes k = Inr s" and b: "body nodes k s = Inr st" by blast
  from body_Inr [OF b] obtain s1 where
    d: "dispatch (depth (nodes ! k)) (node (nodes ! k)) s = Inr s1"
    and c: "st = closeOut (nextDepth nodes k) s1" by blast
  let ?pushed = "(if isLinkNode (node (nodes ! k)) then [k] else []) @ openAt isLinkNode nodes k"
  have IH: "closingBracketStack s = map (linkFrameAt nodes) (openAt isLinkNode nodes k)"
    using Suc.IH [OF _ s] k by simp
  have stack: "closingBracketStack s1 = map (linkFrameAt nodes) ?pushed"
    using closingBracketStack_dispatch [OF d] IH by (simp add: linkFrameAt_def)
  have "length ?pushed \<le> 1"
    using nn k open_links_at_most_one [OF nn, of k] by (auto simp: linksNotNested_def)
  then have short: "length (closingBracketStack s1) \<le> 1" by (simp only: stack length_map)
  have dp: "\<And>i. depth (linkFrameAt nodes i) = depth (nodes ! i)"
    by (simp add: linkFrameAt_def)
  have "closingBracketStack st =
      dropWhile (\<lambda>f. closable (nextDepth nodes k) (depth f)) (closingBracketStack s1)"
    unfolding c closingBracketStack_closeOut by (rule one_pop_enough [OF short])
  also have "\<dots> = map (linkFrameAt nodes) (openAt isLinkNode nodes (Suc k))"
    unfolding stack by (simp only: dropWhile_map comp_def dp open_after_pop)
  finally show ?case .
qed

subsection \<open>Inputs on which the close-out pass falls short\<close>

lemma examples_wellFormed:
  "wellFormed nestedLinks \<and> wellFormed quotedNestedLinks \<and> wellFormed fencedNestedLinks
   \<and> wellFormed quoteThenParagraph \<and> wellFormed quoteThenHeading3
   \<and> wellFormed siblingLists"
  by code_simp

text \<open>
  C1 (the input on which it fails). In \<open>nestedLinks\<close> the outer link, at depth 2, holds
  the inner link and its text \<open>x\<close>; the entry after \<open>x\<close> is at depth 2, so the scopes
  of both links end at position 4. The pass pops one link frame only: after that iteration
  the frame of the outer link is still on the stack, the text \<open>y\<close> that follows is
  emitted inside the brackets, and the closing text of the outer link comes one entry late.
\<close>

theorem C1_outer_link_closed_late:
  "nextDepth nestedLinks 4 = Some 2
   \<and> loop nestedLinks 5 =
       Inr \<lparr>text = ''[[x](b)'', shouldAppendFirstLineBreak = True,
            closingBracketStack = [\<lparr>depth = 2, endText = ''](a)''\<rparr>],
            listStack = [], quoteStack = [], codeStack = []\<rparr>
   \<and> convertToMarkdownString nestedLinks = Inr ''[[x](b)y](a)''"
  by code_simp

text \<open>
  C2 (the input on which it fails). The same two links inside a quote, and inside a code
  block: at position 4 the scopes of both links and of the enclosing block end. The closing
  text of the inner link is appended before the separator of the quote (before the closing
  fence), the closing text of the outer link after it.
\<close>

theorem C2_outer_link_after_separator:
  "convertToMarkdownString quotedNestedLinks =
     Inr (''> [[x](b)'' @ [newline, newline] @ ''](a)y'')
   \<and> convertToMarkdownString fencedNestedLinks =
     Inr ([backtick, backtick, backtick, newline] @ ''[[x](b)'' @ fence @ [newline] @ ''](a)y'')"
  by code_simp

text \<open>
  C8 (the input on which it fails). A paragraph after a quote starts after one blank line,
  since the paragraph adds a line break to the one appended when the quote frame is popped.
  A third-level heading emits nothing of its own, so its text follows the quote after a
  single line break, with no blank line.
\<close>

theorem C8_no_blank_line_before_heading3:
  "convertToMarkdownString quoteThenParagraph = Inr (''> q'' @ [newline, newline] @ ''t'')
   \<and> convertToMarkdownString quoteThenHeading3 = Inr (''> q'' @ [newline] @ ''t'')"
  by code_simp

end
